theory Spec2Isabelle
  imports Main "HOL-Library.Word"
begin

section \<open>Python list slicing\<close>

text \<open>
  \<^verbatim>\<open>buffer.py\<close> uses two slice forms on a list, \<^verbatim>\<open>xs[:k]\<close> as an expression and
  \<^verbatim>\<open>xs[:k] = ys\<close> as an assignment target. Python clamps the stop index of a slice:
  a non-negative \<open>k\<close> stops at \<open>min k (len xs)\<close>, a negative \<open>k\<close> counts from the end
  and stops at \<open>max (len xs + k) 0\<close>. In particular \<^verbatim>\<open>xs[:-0]\<close> is \<^verbatim>\<open>xs[:0]\<close>, the
  empty list.
\<close>

definition slice_stop :: "'a list \<Rightarrow> int \<Rightarrow> nat" where
  "slice_stop xs k =
     (if 0 \<le> k then min (nat k) (length xs) else length xs - nat (- k))"

definition slice_to :: "'a list \<Rightarrow> int \<Rightarrow> 'a list" where
  "slice_to xs k = take (slice_stop xs k) xs"

definition slice_to_assign :: "'a list \<Rightarrow> int \<Rightarrow> 'a list \<Rightarrow> 'a list" where
  "slice_to_assign xs k ys = ys @ drop (slice_stop xs k) xs"

section \<open>FifoBuffer (lib/textproc/buffer.py)\<close>

text \<open>
  The object has three attributes. \<open>size_fb\<close> is the attribute \<^verbatim>\<open>size\<close> (a Python
  integer, so \<open>int\<close>), \<open>creator\<close> the zero-argument factory and \<open>buffer\<close> the list
  the object owns. Lists are modelled by their values; the factory is modelled as
  a function that returns the value of the list it builds.
\<close>

record 'a FifoBuffer =
  size_fb :: int
  creator :: "unit \<Rightarrow> 'a list"
  buffer :: "'a list"

definition create_buffer :: "'a FifoBuffer \<Rightarrow> 'a list" where
  "create_buffer self = creator self ()"

definition FifoBuffer_init :: "int \<Rightarrow> (unit \<Rightarrow> 'a list) \<Rightarrow> 'a FifoBuffer" where
  "FifoBuffer_init sz cr = \<lparr>size_fb = \<bar>sz\<bar>, creator = cr, buffer = cr ()\<rparr>"

text \<open>
  \<^verbatim>\<open>filter\<close> returns its result together with the object after the call. On the
  non-zero branch \<^verbatim>\<open>extend\<close> runs first, the result is sliced from the extended
  list, and only then is the prefix replaced by a new list from the factory.
\<close>

definition filter_fb :: "'a FifoBuffer \<Rightarrow> 'a list \<Rightarrow> 'a list \<times> 'a FifoBuffer" where
  "filter_fb self data =
     (if size_fb self = 0 then (data, self)
      else
        let ext = buffer self @ data in
        if int (length ext) > size_fb self
        then (slice_to ext (- size_fb self),
              self\<lparr>buffer := slice_to_assign ext (- size_fb self) (create_buffer self)\<rparr>)
        else (create_buffer self, self\<lparr>buffer := ext\<rparr>))"

definition get_buffer :: "'a FifoBuffer \<Rightarrow> 'a list \<times> 'a FifoBuffer" where
  "get_buffer self = (slice_to (buffer self) (size_fb self), self)"

text \<open>Python's \<^verbatim>\<open>list\<close> used as the factory: every call gives an empty list.\<close>

definition list_creator :: "unit \<Rightarrow> 'a list" where
  "list_creator u = []"

text \<open>
  A client that calls \<^verbatim>\<open>filter\<close> once for each input, in order, and collects the
  returned values.
\<close>

fun filter_all :: "'a FifoBuffer \<Rightarrow> 'a list list \<Rightarrow> 'a list list \<times> 'a FifoBuffer" where
  "filter_all self [] = ([], self)"
| "filter_all self (d # ds) =
     (let (r, self1) = filter_fb self d;
          (rs, self2) = filter_all self1 ds
      in (r # rs, self2))"

text \<open>
  A client issuing any mix of the two public calls; \<open>run_calls\<close> gives the value
  each call returned, and the object at the end.
\<close>

datatype 'a call = Filter "'a list" | GetBuffer

fun run_calls :: "'a FifoBuffer \<Rightarrow> 'a call list \<Rightarrow> 'a list list \<times> 'a FifoBuffer" where
  "run_calls self [] = ([], self)"
| "run_calls self (Filter d # cs) =
     (let (r, self1) = filter_fb self d;
          (rs, self2) = run_calls self1 cs
      in (r # rs, self2))"
| "run_calls self (GetBuffer # cs) =
     (let (r, self1) = get_buffer self;
          (rs, self2) = run_calls self1 cs
      in (r # rs, self2))"

text \<open>
  The aggregate the specification observes: all values returned by the filter
  calls, concatenated, followed by what \<^verbatim>\<open>get_buffer\<close> returns at the end.
\<close>

definition aggregate :: "'a FifoBuffer \<Rightarrow> 'a list list \<Rightarrow> 'a list" where
  "aggregate self ds =
     (let (rs, self1) = filter_all self ds in concat rs @ fst (get_buffer self1))"

section \<open>The buffer invariant\<close>

text \<open>
  What holds of every object built by the constructor with the \<^verbatim>\<open>list\<close> factory
  and kept by every call: the size is not negative, the factory gives the empty
  list, and the list is no longer than the size.
\<close>

definition fifo_inv :: "'a FifoBuffer \<Rightarrow> bool" where
  "fifo_inv self =
     (0 \<le> size_fb self \<and> creator self () = [] \<and> int (length (buffer self)) \<le> size_fb self)"

text \<open>
  The object after the constructor with the \<^verbatim>\<open>list\<close> factory and any earlier
  filter calls \<open>pre\<close>: the objects a client of the class can hold.
\<close>

definition reached :: "int \<Rightarrow> 'a list list \<Rightarrow> 'a FifoBuffer" where
  "reached sz pre = snd (filter_all (FifoBuffer_init sz list_creator) pre)"

section \<open>copy (lib/system/fileutils.py)\<close>

text \<open>
  \<^verbatim>\<open>copy\<close> opens two paths and moves bytes between the two file objects, so the
  model needs the files behind the paths. A file is a number; \<open>store\<close> holds the
  bytes of file \<open>i\<close> at index \<open>i\<close>, and \<open>names\<close> gives the regular file a path reaches.
  Two paths may reach the same file (\<^verbatim>\<open>a\<close> and \<^verbatim>\<open>./a\<close>, or a link). What the operating
  system refuses is data of the state as well: \<open>refuse_rb p\<close> and \<open>refuse_wb p\<close> say
  that \<^verbatim>\<open>open(p, 'rb')\<close> and \<^verbatim>\<open>open(p, 'wb')\<close> fail with an \<^verbatim>\<open>OSError\<close> (no permission, a
  directory, a missing directory on the way), and \<open>max_alloc\<close> is the largest
  number of bytes the interpreter can allocate for one \<^verbatim>\<open>read\<close>. \<open>writes\<close> is the log
  of the arguments of the \<^verbatim>\<open>write\<close> calls. Every file is a finite list of bytes that
  fits in memory, and a \<^verbatim>\<open>write\<close> to an open file succeeds.
\<close>

type_synonym byte = "8 word"

type_synonym path = string

datatype error = OSError | ValueError | OverflowError | MemoryError

record io =
  names :: "path \<rightharpoonup> nat"
  store :: "byte list list"
  refuse_rb :: "path \<Rightarrow> bool"
  refuse_wb :: "path \<Rightarrow> bool"
  max_alloc :: nat
  writes :: "byte list list"

record reader =
  r_id :: nat
  r_pos :: nat

record writer =
  w_id :: nat


definition content :: "io \<Rightarrow> nat \<Rightarrow> byte list" where
  "content w i = (if i < length (store w) then store w ! i else [])"

definition lookup :: "io \<Rightarrow> path \<Rightarrow> nat option" where
  "lookup w p =
     (case names w p of
        None \<Rightarrow> None
      | Some i \<Rightarrow> if i < length (store w) then Some i else None)"

text \<open>
  \<^verbatim>\<open>open\<close> raises \<^verbatim>\<open>ValueError\<close> for a path with a null character and an \<^verbatim>\<open>OSError\<close>
  (\<^verbatim>\<open>FileNotFoundError\<close> and the like) for the empty path, for a path the system
  refuses, and in mode \<^verbatim>\<open>'rb'\<close> for a path that reaches no file. In mode \<^verbatim>\<open>'wb'\<close> it
  empties the file the path reaches, under whatever name it is reached, and
  makes a new empty file when the path reaches none.
\<close>

definition open_rb :: "io \<Rightarrow> path \<Rightarrow> error + reader" where
  "open_rb w p =
     (if CHR 0x00 \<in> set p then Inl ValueError
      else if p = [] \<or> refuse_rb w p then Inl OSError
      else case lookup w p of
             None \<Rightarrow> Inl OSError
           | Some i \<Rightarrow> Inr \<lparr>r_id = i, r_pos = 0\<rparr>)"

definition open_wb :: "io \<Rightarrow> path \<Rightarrow> error + (writer \<times> io)" where
  "open_wb w p =
     (if CHR 0x00 \<in> set p then Inl ValueError
      else if p = [] \<or> refuse_wb w p then Inl OSError
      else case lookup w p of
             Some j \<Rightarrow> Inr (\<lparr>w_id = j\<rparr>, w\<lparr>store := (store w)[j := []]\<rparr>)
           | None \<Rightarrow>
               Inr (\<lparr>w_id = length (store w)\<rparr>,
                    w\<lparr>names := (names w)(p \<mapsto> length (store w)),
                      store := store w @ [[]]\<rparr>))"

text \<open>
  \<^verbatim>\<open>read(n)\<close> of a buffered binary reader on a 64-bit interpreter. The length must
  fit a signed 64-bit index (\<^verbatim>\<open>OverflowError\<close> otherwise) and must not be below
  \<open>-1\<close> (\<^verbatim>\<open>ValueError\<close>). \<open>n = -1\<close> reads all that is left. Any other \<open>n\<close> above zero
  first allocates \<open>n\<close> bytes, which fails with \<^verbatim>\<open>OverflowError\<close> within 33 bytes of
  the index limit and with \<^verbatim>\<open>MemoryError\<close> above \<open>max_alloc\<close>; then it gives at most
  \<open>n\<close> bytes, and the empty result at the end of the file. \<open>n = 0\<close> gives the empty
  result.
\<close>

definition read_file :: "io \<Rightarrow> reader \<Rightarrow> int \<Rightarrow> error + (byte list \<times> reader)" where
  "read_file w r n =
     (if n < - (2 ^ 63) \<or> 2 ^ 63 \<le> n then Inl OverflowError
      else if n < - 1 then Inl ValueError
      else
        let rest = drop (r_pos r) (content w (r_id r)) in
        if n = - 1 then Inr (rest, r\<lparr>r_pos := r_pos r + length rest\<rparr>)
        else if 2 ^ 63 - 33 \<le> n then Inl OverflowError
        else if int (max_alloc w) < n then Inl MemoryError
        else Inr (take (nat n) rest, r\<lparr>r_pos := r_pos r + length (take (nat n) rest)\<rparr>))"

definition write_file :: "io \<Rightarrow> writer \<Rightarrow> byte list \<Rightarrow> io" where
  "write_file w d data =
     w\<lparr>store := (store w)[w_id d := content w (w_id d) @ data],
       writes := writes w @ [data]\<rparr>"

text \<open>
  The \<^verbatim>\<open>while True\<close> loop. Nothing in its text bounds the number of rounds, so it is
  a partial function: \<open>None\<close> stands for a loop that never ends. An exception leaves
  the loop with the files as they are at that moment.
\<close>

partial_function (option) copy_loop ::
  "int \<Rightarrow> reader \<Rightarrow> writer \<Rightarrow> io \<Rightarrow> ((error + unit) \<times> io) option" where
  "copy_loop bs srcFile dstFile w =
     (case read_file w srcFile bs of
        Inl e \<Rightarrow> Some (Inl e, w)
      | Inr (data, srcFile1) \<Rightarrow>
          if data = [] then Some (Inr (), w)
          else copy_loop bs srcFile1 dstFile (write_file w dstFile data))"

declare copy_loop.simps [code]

definition copy :: "io \<Rightarrow> path \<Rightarrow> path \<Rightarrow> int \<Rightarrow> ((error + unit) \<times> io) option" where
  "copy w srcPath dstPath bs =
     (case open_rb w srcPath of
        Inl e \<Rightarrow> Some (Inl e, w)
      | Inr srcFile \<Rightarrow>
          (case open_wb w dstPath of
             Inl e \<Rightarrow> Some (Inl e, w)
           | Inr (dstFile, w1) \<Rightarrow> copy_loop bs srcFile dstFile w1))"





section \<open>more (lib/textproc/page.py)\<close>

text \<open>
  The pager talks to three things outside itself: the line source (\<^verbatim>\<open>readline\<close>
  gives the next line, and the empty string once the source is exhausted), the
  keyboard (\<^verbatim>\<open>getch\<close>) and the screen (\<^verbatim>\<open>print\<close>). The model keeps what is left of
  the source, the keystrokes still to come, and what has been printed, in order.
\<close>

record pager_io =
  source :: "string list"
  keystrokes :: "char list"
  printed :: "string list"

definition readline :: "pager_io \<Rightarrow> string \<times> pager_io" where
  "readline t = (case source t of [] \<Rightarrow> ([], t) | l # ls \<Rightarrow> (l, t\<lparr>source := ls\<rparr>))"

definition getch :: "pager_io \<Rightarrow> (char \<times> pager_io) option" where
  "getch t = (case keystrokes t of [] \<Rightarrow> None | k # ks \<Rightarrow> Some (k, t\<lparr>keystrokes := ks\<rparr>))"

definition print_end :: "pager_io \<Rightarrow> string \<Rightarrow> pager_io" where
  "print_end t s = t\<lparr>printed := printed t @ [s]\<rparr>"

text \<open>
  The local variables the loops share. \<^verbatim>\<open>leftdata\<close> is \<^verbatim>\<open>None\<close> or a string.
\<close>

record more_vars =
  v_size :: int
  v_leftdata :: "string option"
  v_line :: string

datatype flow = Normal | Return

datatype outcome = Returned | Quit | Blocked

text \<open>
  The modules \<^verbatim>\<open>textproc.wrap\<close> and \<^verbatim>\<open>system.term\<close> are outside the files verified
  here. The pager only needs \<^verbatim>\<open>w.wrap(line, limit).read()\<close> to give a pair of the piece to print and
  the rest of the line, so the wrapper is a parameter \<open>W\<close> of the model, and the
  terminal's height and width are parameters as well.
\<close>

type_synonym wrap_fn = "string \<Rightarrow> int \<Rightarrow> string \<times> string"

text \<open>
  The three nested loops, innermost first. Each takes fuel, since neither the
  wrapper nor the key presses are bound to make progress; \<open>None\<close> is fuel
  exhausted. \<open>while_line\<close> is \<^verbatim>\<open>while line:\<close> (its \<^verbatim>\<open>break\<close> leaves it with
  \<^verbatim>\<open>leftdata\<close> set), \<open>while_size\<close> is \<^verbatim>\<open>while size:\<close> (its \<^verbatim>\<open>return\<close> is the flow
  \<open>Return\<close>), \<open>while_true\<close> is \<^verbatim>\<open>while True:\<close>.
\<close>

fun while_line ::
  "nat \<Rightarrow> wrap_fn \<Rightarrow> int \<Rightarrow> more_vars \<Rightarrow> pager_io \<Rightarrow> (more_vars \<times> pager_io) option" where
  "while_line 0 W limit v t = None"
| "while_line (Suc fuel) W limit v t =
     (if v_line v = [] then Some (v, t)
      else
        let (wrapped, rest) = W (v_line v) limit;
            t1 = print_end t wrapped;
            v1 = v\<lparr>v_line := rest, v_size := v_size v - 1\<rparr>
        in if v_size v1 = 0 then Some (v1\<lparr>v_leftdata := Some (v_line v1)\<rparr>, t1)
           else while_line fuel W limit v1 t1)"

text \<open>
  In \<open>while_size\<close> the binding \<open>v1\<close> is the statement
  \<^verbatim>\<open>if leftdata: line, leftdata = leftdata, None\<close> and \<open>v2\<close> is the statement after
  it, \<^verbatim>\<open>line = data.readline()\<close>, which the source runs on every round.
\<close>

fun while_size ::
  "nat \<Rightarrow> wrap_fn \<Rightarrow> int \<Rightarrow> more_vars \<Rightarrow> pager_io \<Rightarrow> (flow \<times> more_vars \<times> pager_io) option" where
  "while_size 0 W limit v t = None"
| "while_size (Suc fuel) W limit v t =
     (if v_size v = 0 then Some (Normal, v, t)
      else
        let v1 = (case v_leftdata v of
                    None \<Rightarrow> v
                  | Some s \<Rightarrow> if s = [] then v else v\<lparr>v_line := s, v_leftdata := None\<rparr>);
            (l, t1) = readline t;
            v2 = v1\<lparr>v_line := l\<rparr>
        in if v_line v2 = [] then Some (Return, v2, t1)
           else (case while_line fuel W limit v2 t1 of
                   None \<Rightarrow> None
                 | Some (v3, t3) \<Rightarrow> while_size fuel W limit v3 t3))"

text \<open>
  A key press that never comes leaves the pager waiting in \<^verbatim>\<open>getch\<close>: the outcome
  \<open>Blocked\<close>. Space is \<open>CHR 0x20\<close> and return is \<open>CHR 0x0D\<close>.
\<close>

fun while_true ::
  "nat \<Rightarrow> wrap_fn \<Rightarrow> int \<Rightarrow> int \<Rightarrow> more_vars \<Rightarrow> pager_io \<Rightarrow> (outcome \<times> pager_io) option" where
  "while_true 0 W limit number v t = None"
| "while_true (Suc fuel) W limit number v t =
     (case while_size fuel W limit v t of
        None \<Rightarrow> None
      | Some (Return, v1, t1) \<Rightarrow> Some (Returned, t1)
      | Some (Normal, v1, t1) \<Rightarrow>
          (case getch t1 of
             None \<Rightarrow> Some (Blocked, t1)
           | Some (inp, t2) \<Rightarrow>
               if inp = CHR 0x20 then while_true fuel W limit number (v1\<lparr>v_size := number\<rparr>) t2
               else if inp = CHR 0x0D then while_true fuel W limit number (v1\<lparr>v_size := 1\<rparr>) t2
               else Some (Quit, t2)))"

definition more_pager ::
  "nat \<Rightarrow> wrap_fn \<Rightarrow> int \<Rightarrow> int \<Rightarrow> pager_io \<Rightarrow> int \<Rightarrow> (outcome \<times> pager_io) option" where
  "more_pager fuel W term_lines term_cols t number0 =
     (let number = (if number0 = 0 then term_lines - 1 else number0);
          size = number;
          limit = term_cols;
          leftdata = None
      in while_true fuel W limit number \<lparr>v_size = size, v_leftdata = leftdata, v_line = []\<rparr> t)"

text \<open>
  Modelled from the spec: the class \<^verbatim>\<open>Wrap\<close> of \<^verbatim>\<open>textproc.wrap\<close> is missing. The
  specification gives it as \<^verbatim>\<open>wrap(line, width) -> (wrappedChunk, remainder)\<close>;
  \<open>cut_wrap\<close> is the plainest function of that shape, cutting a line after
  \<open>width\<close> characters, and serves to run the pager on concrete input.
\<close>

definition cut_wrap :: wrap_fn where
  "cut_wrap line width = (take (nat width) line, drop (nat width) line)"

section \<open>Lemmas about FifoBuffer\<close>

lemma fifo_inv_init: "fifo_inv (FifoBuffer_init sz list_creator)"
  by (simp add: fifo_inv_def FifoBuffer_init_def list_creator_def)

lemma slice_stop_neg:
  "0 < k \<Longrightarrow> slice_stop xs (- k) = length xs - nat k"
  by (simp add: slice_stop_def)

lemma filter_fb_pos:
  assumes "0 < size_fb self" and "creator self () = []"
  shows "filter_fb self data =
           (take (length (buffer self @ data) - nat (size_fb self)) (buffer self @ data),
            self\<lparr>buffer := drop (length (buffer self @ data) - nat (size_fb self))
                               (buffer self @ data)\<rparr>)"
proof (cases "int (length (buffer self @ data)) > size_fb self")
  case True
  with assms show ?thesis
    by (simp add: filter_fb_def Let_def slice_to_def slice_to_assign_def
        slice_stop_neg create_buffer_def)
next
  case False
  then have "length (buffer self @ data) - nat (size_fb self) = 0"
    by linarith
  with False assms show ?thesis
    by (simp add: filter_fb_def Let_def create_buffer_def)
qed

lemma filter_fb_inv:
  assumes "fifo_inv self"
  shows "fifo_inv (snd (filter_fb self data))"
proof (cases "size_fb self = 0")
  case True
  with assms show ?thesis by (simp add: filter_fb_def)
next
  case False
  with assms have pos: "0 < size_fb self" and cr: "creator self () = []"
    by (simp_all add: fifo_inv_def)
  show ?thesis
    using pos cr by (simp add: filter_fb_pos [OF pos cr] fifo_inv_def)
qed

lemma get_buffer_inv:
  "fifo_inv self \<Longrightarrow> fst (get_buffer self) = buffer self"
  by (auto simp add: fifo_inv_def get_buffer_def slice_to_def slice_stop_def)

lemma filter_fb_lossless:
  assumes "fifo_inv self"
  shows "fst (filter_fb self data) @ buffer (snd (filter_fb self data)) = buffer self @ data"
proof (cases "size_fb self = 0")
  case True
  with assms show ?thesis by (simp add: filter_fb_def fifo_inv_def)
next
  case False
  with assms have pos: "0 < size_fb self" and cr: "creator self () = []"
    by (simp_all add: fifo_inv_def)
  show ?thesis
    by (simp add: filter_fb_pos [OF pos cr] del: take_append drop_append)
qed

lemma filter_all_inv:
  "fifo_inv self \<Longrightarrow> fifo_inv (snd (filter_all self ds))"
proof (induction ds arbitrary: self)
  case Nil
  then show ?case by simp
next
  case (Cons d ds)
  from Cons.prems have "fifo_inv (snd (filter_fb self d))"
    by (rule filter_fb_inv)
  then have "fifo_inv (snd (filter_all (snd (filter_fb self d)) ds))"
    by (rule Cons.IH)
  then show ?case
    by (simp add: split_beta Let_def)
qed

lemma filter_all_lossless:
  "fifo_inv self \<Longrightarrow>
     concat (fst (filter_all self ds)) @ buffer (snd (filter_all self ds))
       = buffer self @ concat ds"
proof (induction ds arbitrary: self)
  case Nil
  then show ?case by simp
next
  case (Cons d ds)
  let ?s1 = "snd (filter_fb self d)"
  have inv1: "fifo_inv ?s1"
    using Cons.prems by (rule filter_fb_inv)
  have "concat (fst (filter_all self (d # ds))) @ buffer (snd (filter_all self (d # ds)))
          = fst (filter_fb self d)
            @ (concat (fst (filter_all ?s1 ds)) @ buffer (snd (filter_all ?s1 ds)))"
    by (simp add: split_beta Let_def)
  also have "\<dots> = fst (filter_fb self d) @ (buffer ?s1 @ concat ds)"
    using Cons.IH [OF inv1] by simp
  also have "\<dots> = (fst (filter_fb self d) @ buffer ?s1) @ concat ds"
    by simp
  also have "\<dots> = (buffer self @ d) @ concat ds"
    using filter_fb_lossless [OF Cons.prems] by simp
  finally show ?case by simp
qed

lemma window_take:
  "take (length xs - n) xs
     @ take (length (drop (length xs - n) xs @ ys) - n) (drop (length xs - n) xs @ ys)
   = take (length (xs @ ys) - n) (xs @ ys)"
proof (cases "length xs \<le> n")
  case True
  then show ?thesis by simp
next
  case False
  then have "length (xs @ ys) - n = (length xs - n) + length ys" by simp
  then have "take (length (xs @ ys) - n) (xs @ ys)
               = take (length xs - n) (xs @ ys) @ take (length ys) (drop (length xs - n) (xs @ ys))"
    by (simp only: take_add)
  with False show ?thesis by simp
qed

lemma window_drop:
  "drop (length (drop (length xs - n) xs @ ys) - n) (drop (length xs - n) xs @ ys)
   = drop (length (xs @ ys) - n) (xs @ ys)"
proof (cases "length xs \<le> n")
  case True
  then show ?thesis by simp
next
  case False
  then show ?thesis by (simp add: add.commute)
qed

lemma filter_fb_append:
  assumes "fifo_inv self"
  shows "filter_fb self (d1 @ d2)
           = (fst (filter_fb self d1) @ fst (filter_fb (snd (filter_fb self d1)) d2),
              snd (filter_fb (snd (filter_fb self d1)) d2))"
proof (cases "size_fb self = 0")
  case True
  then show ?thesis by (simp add: filter_fb_def)
next
  case False
  with assms have pos: "0 < size_fb self" and cr: "creator self () = []"
    by (simp_all add: fifo_inv_def)
  define n where "n = nat (size_fb self)"
  define e1 where "e1 = buffer self @ d1"
  define k1 where "k1 = length e1 - n"
  define e2 where "e2 = drop k1 e1 @ d2"
  define k2 where "k2 = length e2 - n"
  define k3 where "k3 = length (e1 @ d2) - n"
  have r1: "filter_fb self d1 = (take k1 e1, self\<lparr>buffer := drop k1 e1\<rparr>)"
    unfolding k1_def e1_def n_def by (rule filter_fb_pos [OF pos cr])
  have "filter_fb (self\<lparr>buffer := drop k1 e1\<rparr>) d2
          = (take (length (buffer (self\<lparr>buffer := drop k1 e1\<rparr>) @ d2)
                    - nat (size_fb (self\<lparr>buffer := drop k1 e1\<rparr>)))
               (buffer (self\<lparr>buffer := drop k1 e1\<rparr>) @ d2),
             self\<lparr>buffer := drop k1 e1\<rparr>
               \<lparr>buffer := drop (length (buffer (self\<lparr>buffer := drop k1 e1\<rparr>) @ d2)
                    - nat (size_fb (self\<lparr>buffer := drop k1 e1\<rparr>)))
                  (buffer (self\<lparr>buffer := drop k1 e1\<rparr>) @ d2)\<rparr>)"
    using pos cr by (intro filter_fb_pos) simp_all
  then have r2: "filter_fb (self\<lparr>buffer := drop k1 e1\<rparr>) d2
                   = (take k2 e2, self\<lparr>buffer := drop k2 e2\<rparr>)"
    by (simp add: k2_def e2_def n_def)
  have "filter_fb self (d1 @ d2)
          = (take (length (buffer self @ d1 @ d2) - nat (size_fb self)) (buffer self @ d1 @ d2),
             self\<lparr>buffer := drop (length (buffer self @ d1 @ d2) - nat (size_fb self))
                               (buffer self @ d1 @ d2)\<rparr>)"
    by (rule filter_fb_pos [OF pos cr])
  then have r3: "filter_fb self (d1 @ d2) = (take k3 (e1 @ d2), self\<lparr>buffer := drop k3 (e1 @ d2)\<rparr>)"
    by (simp add: k3_def e1_def n_def)
  have t: "take k1 e1 @ take k2 e2 = take k3 (e1 @ d2)"
    unfolding k1_def k2_def e2_def k3_def by (rule window_take)
  have d: "drop k2 e2 = drop k3 (e1 @ d2)"
    unfolding k1_def k2_def e2_def k3_def by (rule window_drop)
  show ?thesis
    by (simp only: r1 r2 r3 fst_conv snd_conv t d)
qed

lemma filter_fb_nil:
  "fifo_inv self \<Longrightarrow> filter_fb self [] = ([], self)"
  by (auto simp add: filter_fb_def fifo_inv_def Let_def create_buffer_def)

lemma filter_all_concat:
  "fifo_inv self \<Longrightarrow>
     (concat (fst (filter_all self ds)), snd (filter_all self ds)) = filter_fb self (concat ds)"
proof (induction ds arbitrary: self)
  case Nil
  then show ?case by (simp add: filter_fb_nil)
next
  case (Cons d ds)
  let ?s1 = "snd (filter_fb self d)"
  have inv1: "fifo_inv ?s1" using Cons.prems by (rule filter_fb_inv)
  have "filter_fb ?s1 (concat ds) = (concat (fst (filter_all ?s1 ds)), snd (filter_all ?s1 ds))"
    using Cons.IH [OF inv1] by simp
  then show ?case
    by (simp add: filter_fb_append [OF Cons.prems] split_beta Let_def)
qed

lemma fifo_inv_reached: "fifo_inv (reached sz pre)"
  unfolding reached_def by (rule filter_all_inv [OF fifo_inv_init])

lemma aggregate_concat:
  assumes "fifo_inv self"
  shows "aggregate self ds = aggregate self [concat ds]"
proof -
  have "filter_fb self (concat ds) = (concat (fst (filter_all self ds)), snd (filter_all self ds))"
    using filter_all_concat [OF assms] by simp
  then show ?thesis
    by (simp add: aggregate_def split_beta Let_def)
qed

section \<open>Claims about FifoBuffer\<close>

text \<open>
  C1 (lossless concatenation). For a buffer constructed with any size and the
  \<^verbatim>\<open>list\<close> factory, and any finite sequence of filter calls with list inputs
  \<open>ds\<close>, the returned values concatenated in call order, followed by the result of
  \<^verbatim>\<open>get_buffer()\<close> after the last call, are exactly the concatenation of the inputs.
\<close>

theorem lossless_concatenation:
  "aggregate (FifoBuffer_init sz list_creator) ds = concat ds"
proof -
  let ?s0 = "FifoBuffer_init sz list_creator :: 'a FifoBuffer"
  have inv0: "fifo_inv ?s0" by (rule fifo_inv_init)
  have inv1: "fifo_inv (snd (filter_all ?s0 ds))"
    using inv0 by (rule filter_all_inv)
  have "aggregate ?s0 ds
          = concat (fst (filter_all ?s0 ds)) @ buffer (snd (filter_all ?s0 ds))"
    by (simp add: aggregate_def split_beta get_buffer_inv [OF inv1])
  also have "\<dots> = buffer ?s0 @ concat ds"
    using inv0 by (rule filter_all_lossless)
  also have "\<dots> = concat ds"
    by (simp add: FifoBuffer_init_def list_creator_def)
  finally show ?thesis .
qed

text \<open>
  C2 (eviction step). For a buffer with capacity above zero and a factory that
  gives the empty list, one \<^verbatim>\<open>filter(data)\<close> call appends \<open>data\<close> to the contents;
  if the contents are then longer than the capacity it returns the first
  \<open>overflow = len(contents) - capacity\<close> elements, in order, and keeps the last
  \<open>capacity\<close> elements; otherwise it returns the empty list and keeps everything.
  With capacity 2 and the \<^verbatim>\<open>list\<close> factory, \<^verbatim>\<open>filter([1,2,3,4,5])\<close> on a new buffer
  returns \<^verbatim>\<open>[1,2,3]\<close> and leaves \<^verbatim>\<open>get_buffer() == [4,5]\<close>.
\<close>

theorem eviction_step:
  assumes "0 < size_fb self" and "creator self () = []"
  shows "filter_fb self data =
           (let contents = buffer self @ data;
                overflow = length contents - nat (size_fb self)
            in if int (length contents) > size_fb self
               then (take overflow contents, self\<lparr>buffer := drop overflow contents\<rparr>)
               else ([], self\<lparr>buffer := contents\<rparr>))
         \<and> (int (length (buffer self @ data)) > size_fb self \<longrightarrow>
              int (length (buffer (snd (filter_fb self data)))) = size_fb self)
         \<and> filter_fb (FifoBuffer_init 2 list_creator) [1, 2, 3, 4, 5 :: int]
             = ([1, 2, 3], \<lparr>size_fb = 2, creator = list_creator, buffer = [4, 5]\<rparr>)
         \<and> fst (get_buffer (snd (filter_fb (FifoBuffer_init 2 list_creator) [1, 2, 3, 4, 5 :: int])))
             = [4, 5]"
proof -
  have general: "filter_fb self data =
           (let contents = buffer self @ data;
                overflow = length contents - nat (size_fb self)
            in if int (length contents) > size_fb self
               then (take overflow contents, self\<lparr>buffer := drop overflow contents\<rparr>)
               else ([], self\<lparr>buffer := contents\<rparr>))"
    using assms
    by (simp add: filter_fb_def Let_def slice_to_def slice_to_assign_def
        slice_stop_neg create_buffer_def)
  have len: "int (length (buffer self @ data)) > size_fb self \<longrightarrow>
              int (length (buffer (snd (filter_fb self data)))) = size_fb self"
    using assms by (auto simp add: filter_fb_pos [OF assms])
  have ex1: "filter_fb (FifoBuffer_init 2 list_creator) [1, 2, 3, 4, 5 :: int]
             = ([1, 2, 3], \<lparr>size_fb = 2, creator = list_creator, buffer = [4, 5]\<rparr>)"
    by (simp add: filter_fb_def FifoBuffer_init_def list_creator_def Let_def slice_to_def
        slice_to_assign_def slice_stop_def create_buffer_def)
  have ex2: "fst (get_buffer (snd (filter_fb (FifoBuffer_init 2 list_creator) [1, 2, 3, 4, 5 :: int])))
             = [4, 5]"
    by (simp add: ex1 get_buffer_def slice_to_def slice_stop_def)
  from general len ex1 ex2 show ?thesis by blast
qed

theorem eviction_step_witness:
  "0 < size_fb \<lparr>size_fb = 2, creator = list_creator, buffer = [7 :: int]\<rparr>
   \<and> creator \<lparr>size_fb = 2, creator = list_creator, buffer = [7 :: int]\<rparr> () = []
   \<and> filter_fb \<lparr>size_fb = 2, creator = list_creator, buffer = [7 :: int]\<rparr> [8, 9]
       = ([7], \<lparr>size_fb = 2, creator = list_creator, buffer = [8, 9]\<rparr>)"
  using eviction_step [of "\<lparr>size_fb = 2, creator = list_creator, buffer = [7 :: int]\<rparr>" "[8, 9]"]
  by (simp add: list_creator_def)

text \<open>
  C3 (bound invariant). For every buffer with capacity \<open>C \<ge> 0\<close> whose factory
  gives the empty list, after a filter call the capacity is still \<open>C\<close>,
  \<^verbatim>\<open>len(get_buffer()) <= C\<close>, and when \<open>C > 0\<close> the contents themselves hold at most
  \<open>C\<close> elements.
\<close>

theorem bound_invariant:
  assumes "0 \<le> size_fb self" and "creator self () = []"
  shows "size_fb (snd (filter_fb self data)) = size_fb self
         \<and> int (length (fst (get_buffer (snd (filter_fb self data))))) \<le> size_fb self
         \<and> (0 < size_fb self \<longrightarrow>
              int (length (buffer (snd (filter_fb self data)))) \<le> size_fb self)"
proof (cases "size_fb self = 0")
  case True
  then show ?thesis
    by (simp add: filter_fb_def get_buffer_def slice_to_def slice_stop_def)
next
  case False
  with assms have pos: "0 < size_fb self" by simp
  show ?thesis
    using pos
    by (auto simp add: filter_fb_pos [OF pos assms(2)] get_buffer_def slice_to_def slice_stop_def)
qed

theorem bound_invariant_witness:
  "0 \<le> size_fb \<lparr>size_fb = 2, creator = list_creator, buffer = [1 :: int, 2]\<rparr>
   \<and> creator \<lparr>size_fb = 2, creator = list_creator, buffer = [1 :: int, 2]\<rparr> () = []
   \<and> length (fst (get_buffer
         (snd (filter_fb \<lparr>size_fb = 2, creator = list_creator, buffer = [1 :: int, 2]\<rparr> [3, 4, 5]))))
       \<le> 2
   \<and> length (buffer
         (snd (filter_fb \<lparr>size_fb = 2, creator = list_creator, buffer = [1 :: int, 2]\<rparr> [3, 4, 5])))
       \<le> 2"
  using bound_invariant
    [of "\<lparr>size_fb = 2, creator = list_creator, buffer = [1 :: int, 2]\<rparr>" "[3, 4, 5]"]
  by (simp add: list_creator_def)

text \<open>
  C4 (zero-capacity pass-through). On a buffer constructed with capacity 0, with
  any factory, every \<^verbatim>\<open>filter(x)\<close> returns \<open>x\<close>, every \<^verbatim>\<open>get_buffer()\<close> returns the
  empty list, and the object after any sequence of calls is the object the
  constructor built: no call touches the contents.
\<close>

theorem zero_capacity_pass_through:
  "run_calls (FifoBuffer_init 0 cr) cs
     = (map (\<lambda>c. case c of Filter x \<Rightarrow> x | GetBuffer \<Rightarrow> []) cs, FifoBuffer_init 0 cr)"
proof (induction cs)
  case Nil
  show ?case by simp
next
  case (Cons c cs)
  show ?case
  proof (cases c)
    case (Filter d)
    then show ?thesis using Cons.IH
      by (simp add: filter_fb_def FifoBuffer_init_def)
  next
    case GetBuffer
    then show ?thesis using Cons.IH
      by (simp add: get_buffer_def slice_to_def slice_stop_def FifoBuffer_init_def)
  qed
qed

text \<open>
  C6 (incremental equivalence). On any buffer reached from the constructor with
  the \<^verbatim>\<open>list\<close> factory, feeding \<open>xs\<close> one element per call gives the same aggregate
  (returned values concatenated, then \<^verbatim>\<open>get_buffer()\<close>) as feeding \<open>xs\<close> in one call,
  and the calls \<^verbatim>\<open>filter(d1); filter(d2)\<close> give the same aggregate as
  \<^verbatim>\<open>filter(d1 + d2)\<close>. More is true: however the input is cut into calls, the
  returned values concatenate to the value of the single call on the whole input,
  and the object at the end is the same.
\<close>

theorem incremental_equivalence:
  "aggregate (reached sz pre) (map (\<lambda>x. [x]) xs) = aggregate (reached sz pre) [xs]
   \<and> aggregate (reached sz pre) [d1, d2] = aggregate (reached sz pre) [d1 @ d2]
   \<and> concat (fst (filter_all (reached sz pre) ds)) = fst (filter_fb (reached sz pre) (concat ds))
   \<and> snd (filter_all (reached sz pre) ds) = snd (filter_fb (reached sz pre) (concat ds))"
proof -
  have inv: "fifo_inv (reached sz pre)" by (rule fifo_inv_reached)
  have single: "concat (map (\<lambda>x. [x]) xs) = xs" by (induction xs) simp_all
  have a: "aggregate (reached sz pre) (map (\<lambda>x. [x]) xs) = aggregate (reached sz pre) [xs]"
    using aggregate_concat [OF inv, of "map (\<lambda>x. [x]) xs"] by (simp only: single)
  have b: "aggregate (reached sz pre) [d1, d2] = aggregate (reached sz pre) [d1 @ d2]"
    using aggregate_concat [OF inv, of "[d1, d2]"] by simp
  have c: "(concat (fst (filter_all (reached sz pre) ds)), snd (filter_all (reached sz pre) ds))
             = filter_fb (reached sz pre) (concat ds)"
    using inv by (rule filter_all_concat)
  have c1: "concat (fst (filter_all (reached sz pre) ds)) = fst (filter_fb (reached sz pre) (concat ds))"
    using arg_cong [OF c, of fst] by simp
  have c2: "snd (filter_all (reached sz pre) ds) = snd (filter_fb (reached sz pre) (concat ds))"
    using arg_cong [OF c, of snd] by simp
  from a b c1 c2 show ?thesis by blast
qed

text \<open>
  C7 (get_buffer snapshot). For every buffer (the capacity is never negative),
  \<^verbatim>\<open>get_buffer()\<close> returns the first \<open>min capacity (len contents)\<close> elements of the
  contents and leaves the object as it was: capacity, factory and contents are
  unchanged. Lists are values here, so the result shares nothing with the object.
\<close>

theorem get_buffer_snapshot:
  "0 \<le> size_fb self \<Longrightarrow>
     get_buffer self
       = (take (min (nat (size_fb self)) (length (buffer self))) (buffer self), self)"
  by (simp add: get_buffer_def slice_to_def slice_stop_def)

theorem get_buffer_snapshot_witness:
  "0 \<le> size_fb \<lparr>size_fb = 2, creator = list_creator, buffer = [1 :: int, 2, 3]\<rparr>
   \<and> get_buffer \<lparr>size_fb = 2, creator = list_creator, buffer = [1 :: int, 2, 3]\<rparr>
       = ([1, 2], \<lparr>size_fb = 2, creator = list_creator, buffer = [1 :: int, 2, 3]\<rparr>)"
  using get_buffer_snapshot [of "\<lparr>size_fb = 2, creator = list_creator, buffer = [1 :: int, 2, 3]\<rparr>"]
  by simp

text \<open>
  C8 (negative size normalization). The constructor builds the same object from
  \<open>- s\<close> as from \<open>s\<close>, so every sequence of \<^verbatim>\<open>filter\<close> and \<^verbatim>\<open>get_buffer\<close> calls returns
  the same values and ends in the same object; size \<open>-3\<close> is size \<open>3\<close>.
\<close>

theorem negative_size_normalization:
  "FifoBuffer_init (- s) cr = FifoBuffer_init s cr
   \<and> run_calls (FifoBuffer_init (- s) cr) cs = run_calls (FifoBuffer_init s cr) cs
   \<and> run_calls (FifoBuffer_init (- 3) cr) cs = run_calls (FifoBuffer_init 3 cr) cs"
proof -
  have "\<bar>- s\<bar> = \<bar>s\<bar>" by simp
  then have same: "FifoBuffer_init (- s) cr = FifoBuffer_init s cr"
    by (simp add: FifoBuffer_init_def)
  have three: "FifoBuffer_init (- 3) cr = FifoBuffer_init 3 cr"
    by (simp add: FifoBuffer_init_def)
  from same three show ?thesis by simp
qed

section \<open>The copy loop\<close>



text \<open>One round of the loop, by the three ways a \<^verbatim>\<open>read\<close> can end.\<close>

lemma copy_loop_raise:
  "read_file w r bs = Inl e \<Longrightarrow> copy_loop bs r d w = Some (Inl e, w)"
  by (subst copy_loop.simps) simp

lemma copy_loop_stop:
  "read_file w r bs = Inr ([], r1) \<Longrightarrow> copy_loop bs r d w = Some (Inr (), w)"
  by (subst copy_loop.simps) simp

lemma copy_loop_step:
  "read_file w r bs = Inr (data, r1) \<Longrightarrow> data \<noteq> [] \<Longrightarrow>
     copy_loop bs r d w = copy_loop bs r1 d (write_file w d data)"
  by (subst copy_loop.simps) simp

lemma content_write_other:
  "i \<noteq> w_id d \<Longrightarrow> content (write_file w d data) i = content w i"
  by (simp add: content_def write_file_def)



lemma read_file_advance:
  assumes "read_file w r bs = Inr (data, r1)"
  shows "r1 = r\<lparr>r_pos := r_pos r + length data\<rparr>
         \<and> length data \<le> length (content w (r_id r)) - r_pos r"
  using assms by (auto simp add: read_file_def Let_def split: if_splits)



lemma open_wb_Inr:
  assumes "open_wb w p = Inr (d, w1)"
  shows "w_id d < length (store w1) \<and> content w1 (w_id d) = []
         \<and> max_alloc w1 = max_alloc w \<and> writes w1 = writes w
         \<and> (\<forall>i. i \<noteq> w_id d \<longrightarrow> content w1 i = content w i)"
  using assms
  by (auto simp add: open_wb_def lookup_def content_def nth_append
      split: if_splits option.splits)

lemma copy_loop_total:
  assumes "r_id r \<noteq> w_id d"
  shows "\<exists>res. copy_loop bs r d w = Some res"
  using assms
proof (induction "length (content w (r_id r)) - r_pos r" arbitrary: r w rule: less_induct)
  case less
  show ?case
  proof (cases "read_file w r bs")
    case (Inl e)
    then show ?thesis by (simp add: copy_loop_raise)
  next
    case (Inr p)
    obtain data r1 where p: "p = (data, r1)" by (cases p)
    show ?thesis
    proof (cases "data = []")
      case True
      with Inr p show ?thesis by (simp add: copy_loop_stop)
    next
      case False
      define w1 where "w1 = write_file w d data"
      from Inr p have rd: "read_file w r bs = Inr (data, r1)" by simp
      have step: "copy_loop bs r d w = copy_loop bs r1 d w1"
        unfolding w1_def using rd False by (rule copy_loop_step)
      from read_file_advance [OF rd]
      have r1: "r1 = r\<lparr>r_pos := r_pos r + length data\<rparr>"
        and le: "length data \<le> length (content w (r_id r)) - r_pos r"
        by simp_all
      have same: "content w1 (r_id r1) = content w (r_id r)"
        using less.prems by (simp add: w1_def r1 content_write_other)
      have "0 < length data" using False by simp
      moreover have "r_pos r1 = r_pos r + length data" by (simp add: r1)
      ultimately have "length (content w (r_id r)) - r_pos r1
                  < length (content w (r_id r)) - r_pos r"
        using le by linarith
      then have dec: "length (content w1 (r_id r1)) - r_pos r1
                  < length (content w (r_id r)) - r_pos r"
        by (simp only: same)
      have "r_id r1 \<noteq> w_id d" using less.prems by (simp add: r1)
      with dec have "\<exists>res. copy_loop bs r1 d w1 = Some res" by (rule less.hyps)
      with step show ?thesis by simp
    qed
  qed
qed

lemma copy_loop_emptied:
  assumes "content w (r_id r) = []"
  shows "\<exists>res. copy_loop bs r d w = Some res"
proof (cases "read_file w r bs")
  case (Inl e)
  then show ?thesis by (simp add: copy_loop_raise)
next
  case (Inr p)
  obtain data r1 where p: "p = (data, r1)" by (cases p)
  from Inr p have rd: "read_file w r bs = Inr (data, r1)" by simp
  from read_file_advance [OF rd] assms have "data = []" by simp
  with rd show ?thesis by (simp add: copy_loop_stop)
qed



section \<open>Claims about copy\<close>




text \<open>
  C10 (copy terminates). Every file holds finitely many bytes, and \<^verbatim>\<open>copy\<close> returns
  for every state of the files, every pair of paths and every buffer size: with a
  result, or with the exception an \<^verbatim>\<open>open\<close> or a \<^verbatim>\<open>read\<close> raised. The loop is
  defined as a partial function, and the proof that it returns is by well-founded
  induction on the number of source bytes not yet read, which every round with a
  non-empty read makes smaller; for a buffer size above zero these are all rounds
  but the last. When both paths reach one file, the file is empty after the two
  \<^verbatim>\<open>open\<close> calls and the first read ends the loop.
\<close>

theorem copy_terminates: "\<exists>res. copy w srcPath dstPath bs = Some res"
proof (cases "open_rb w srcPath")
  case (Inl e)
  then show ?thesis by (simp add: copy_def)
next
  case (Inr r)
  show ?thesis
  proof (cases "open_wb w dstPath")
    case (Inl e)
    with Inr show ?thesis by (simp add: copy_def)
  next
    case wb: (Inr p)
    obtain d w1 where p: "p = (d, w1)" by (cases p)
    from wb p have o: "open_wb w dstPath = Inr (d, w1)" by simp
    have run: "copy w srcPath dstPath bs = copy_loop bs r d w1"
      using Inr o by (simp add: copy_def)
    show ?thesis
    proof (cases "r_id r = w_id d")
      case False
      then have "\<exists>res. copy_loop bs r d w1 = Some res" by (rule copy_loop_total)
      with run show ?thesis by simp
    next
      case True
      from open_wb_Inr [OF o] have "content w1 (w_id d) = []" by simp
      with True have "content w1 (r_id r) = []" by simp
      then have "\<exists>res. copy_loop bs r d w1 = Some res" by (rule copy_loop_emptied)
      with run show ?thesis by simp
    qed
  qed
qed

section \<open>Claims about more\<close>

text \<open>
  C5 (pager completeness) does not hold of the code. The source is the single line
  \<^verbatim>\<open>abcdef\<close>, the screen quota is one piece (\<open>number = 1\<close>), the width is 3, and the
  user presses space once. The first piece \<^verbatim>\<open>abc\<close> is printed and the rest \<^verbatim>\<open>def\<close> is
  kept in \<^verbatim>\<open>leftdata\<close>. After the key press the rest is moved back into \<^verbatim>\<open>line\<close>, but the
  next statement overwrites \<^verbatim>\<open>line\<close> with a new \<^verbatim>\<open>readline()\<close>, which is empty, and the
  pager returns: \<^verbatim>\<open>def\<close> is never printed.
\<close>

theorem more_drops_interrupted_line:
  "more_pager 8 cut_wrap 24 3 \<lparr>source = [''abcdef''], keystrokes = [CHR 0x20], printed = []\<rparr> 1
     = Some (Returned, \<lparr>source = [], keystrokes = [], printed = [''abc'']\<rparr>)"
  by (simp add: more_pager_def eval_nat_numeral cut_wrap_def readline_def getch_def print_end_def)

text \<open>
  The same for any wrapper: whenever the piece that fills the quota leaves a rest
  \<open>b\<close> of the line, the rest is lost after the key press.
\<close>

lemma more_drops_rest_any_wrap:
  assumes "W l limit = (a, b)" and "l \<noteq> []" and "b \<noteq> []"
  shows "more_pager (Suc (Suc (Suc (Suc n)))) W term_lines limit
           \<lparr>source = [l], keystrokes = [CHR 0x20], printed = []\<rparr> 1
         = Some (Returned, \<lparr>source = [], keystrokes = [], printed = [a]\<rparr>)"
  using assms
  by (simp add: more_pager_def readline_def getch_def print_end_def)

end
